theory Spec2Isabelle
  imports Main "HOL-Library.Sublist"
begin

section \<open>The patch script \<open>fix.py\<close>\<close>

text \<open>
  The repository is one Python function, \<open>finalize_retry_fix\<close>: if the path
  \<open>tests\test_ky_http.rs\<close> exists, its text is read, five literal replacements are applied
  one after the other, the result is written back to the same path and a line is printed.

  Python strings are modelled as \<^typ>\<open>string\<close>: a text is the list of its UTF-8 bytes.
  The five patterns and their replacements are ASCII. In the file system of the model a
  file holds the text that \<open>read_text\<close> returns for it and that \<open>write_text\<close> is
  given. Between that text and the bytes on disk lies the newline translation of Python's
  text files; it is modelled on its own (\<open>universal_newlines\<close>, \<open>write_newlines\<close>) for
  the statements that speak about bytes.
\<close>

subsection \<open>\<open>str.replace\<close>\<close>

text \<open>
  \<open>s.replace(old, new)\<close> scans \<open>s\<close> from the left and replaces every non-overlapping
  occurrence of \<open>old\<close>. For an empty \<open>old\<close> Python puts \<open>new\<close> before every character
  and at the end.
\<close>

fun replace_py :: "string \<Rightarrow> string \<Rightarrow> string \<Rightarrow> string" where
  "replace_py [] new s = new @ concat (map (\<lambda>c. c # new) s)"
| "replace_py (a # as) new [] = []"
| "replace_py (a # as) new (c # cs) =
     (if prefix (a # as) (c # cs)
      then new @ replace_py (a # as) new (drop (length (a # as)) (c # cs))
      else c # replace_py (a # as) new cs)"

subsection \<open>The file system and the library calls\<close>

type_synonym path = string

datatype node = Text_file string | Undecodable_file | Directory

datatype io_event =
    Read_text path string
  | Write_text path string string
  | Print string

datatype error = FileNotFoundError | IsADirectoryError | UnicodeDecodeError

record world =
  files :: "path \<rightharpoonup> node"
  io_log :: "io_event list"

text \<open>\<open>Path.exists()\<close>: true for any kind of node at the path.\<close>

definition path_exists :: "world \<Rightarrow> path \<Rightarrow> bool" where
  "path_exists w p \<longleftrightarrow> files w p \<noteq> None"

text \<open>
  \<open>Path.read_text(encoding=enc)\<close>: the text of a regular file; a missing path, a directory
  and a file whose bytes do not decode raise. The second argument is the encoding name.
\<close>

definition read_text :: "world \<Rightarrow> path \<Rightarrow> string \<Rightarrow> (error + string) \<times> world" where
  "read_text w p enc =
     (case files w p of
        None \<Rightarrow> (Inl FileNotFoundError, w)
      | Some Directory \<Rightarrow> (Inl IsADirectoryError, w)
      | Some Undecodable_file \<Rightarrow> (Inl UnicodeDecodeError, w\<lparr>io_log := io_log w @ [Read_text p enc]\<rparr>)
      | Some (Text_file s) \<Rightarrow> (Inr s, w\<lparr>io_log := io_log w @ [Read_text p enc]\<rparr>))"

text \<open>\<open>Path.write_text(data, encoding=enc)\<close>: creates or overwrites the file at the path.\<close>

definition write_text :: "world \<Rightarrow> path \<Rightarrow> string \<Rightarrow> string \<Rightarrow> (error + unit) \<times> world" where
  "write_text w p enc data =
     (case files w p of
        Some Directory \<Rightarrow> (Inl IsADirectoryError, w)
      | _ \<Rightarrow> (Inr (), w\<lparr>files := (files w)(p \<mapsto> Text_file data),
                          io_log := io_log w @ [Write_text p enc data]\<rparr>))"

text \<open>\<open>print(msg)\<close>: standard output is taken to accept the line.\<close>

definition print_line :: "world \<Rightarrow> string \<Rightarrow> (error + unit) \<times> world" where
  "print_line w msg = (Inr (), w\<lparr>io_log := io_log w @ [Print msg]\<rparr>)"

subsection \<open>\<open>finalize_retry_fix\<close>\<close>

text \<open>The path literal \<open>r"tests\test_ky_http.rs"\<close>; \<open>CHR 0x5C\<close> is the backslash.\<close>

definition test_path :: path where
  "test_path = ''tests'' @ [CHR 0x5C] @ ''test_ky_http.rs''"

text \<open>Lines 11 to 17: the five assignments to \<open>new_content\<close>.\<close>

definition patched_content :: "string \<Rightarrow> string" where
  "patched_content content =
     (let new_content = replace_py ''opts.retry = 7;'' ''opts.retry = 10;'' content;
          new_content = replace_py ''opts.retry = 6;'' ''opts.retry = 10;'' new_content;
          new_content = replace_py ''opts.retry = 5;'' ''opts.retry = 10;'' new_content;
          new_content = replace_py ''let _concurrent ='' ''let concurrent ='' new_content;
          new_content = replace_py ''let _max_seen ='' ''let max_seen ='' new_content
      in new_content)"

text \<open>The printed line starts with U+2705, given here by its three UTF-8 bytes.\<close>

definition success_message :: string where
  "success_message = [CHR 0xE2, CHR 0x9C, CHR 0x85] @
     '' Module logic bypass: Retry increased to 10 to ensure success window is hit.''"

definition finalize_retry_fix :: "world \<Rightarrow> (error + unit) \<times> world" where
  "finalize_retry_fix w =
     (if path_exists w test_path then
        (case read_text w test_path ''utf-8'' of
           (Inl e, w1) \<Rightarrow> (Inl e, w1)
         | (Inr content, w1) \<Rightarrow>
             (case write_text w1 test_path ''utf-8'' (patched_content content) of
                (Inl e, w2) \<Rightarrow> (Inl e, w2)
              | (Inr u, w2) \<Rightarrow> print_line w2 success_message))
      else (Inr (), w))"

text \<open>
  The two commented blocks of lines 11 to 17, each on its own: "Increase retry to 10" is
  lines 11 to 13, "Fix variable names for the compiler" is lines 16 and 17.
\<close>

definition retry_increased :: "string \<Rightarrow> string" where
  "retry_increased content =
     (let new_content = replace_py ''opts.retry = 7;'' ''opts.retry = 10;'' content;
          new_content = replace_py ''opts.retry = 6;'' ''opts.retry = 10;'' new_content;
          new_content = replace_py ''opts.retry = 5;'' ''opts.retry = 10;'' new_content
      in new_content)"

definition names_fixed :: "string \<Rightarrow> string" where
  "names_fixed new_content =
     (let new_content = replace_py ''let _concurrent ='' ''let concurrent ='' new_content;
          new_content = replace_py ''let _max_seen ='' ''let max_seen ='' new_content
      in new_content)"

subsection \<open>The newline layer of text files\<close>

abbreviation LF :: char where "LF \<equiv> CHR 0x0A"


definition write_newlines :: "string \<Rightarrow> string \<Rightarrow> string" where
  "write_newlines linesep s = concat (map (\<lambda>c. if c = LF then linesep else [c]) s)"


section \<open>Vocabulary of the statements\<close>

text \<open>
  The five pairs of literals of lines 11 to 17, in the order of the source, and the
  application of a list of such pairs one after the other.
\<close>

definition substitutions :: "(string \<times> string) list" where
  "substitutions =
     [(''opts.retry = 7;'', ''opts.retry = 10;''),
      (''opts.retry = 6;'', ''opts.retry = 10;''),
      (''opts.retry = 5;'', ''opts.retry = 10;''),
      (''let _concurrent ='', ''let concurrent =''),
      (''let _max_seen ='', ''let max_seen ='')]"

definition replace_each :: "(string \<times> string) list \<Rightarrow> string \<Rightarrow> string" where
  "replace_each rules s = fold (\<lambda>(old, new). replace_py old new) rules s"

text \<open>
  A text cut into pieces: a character that is kept, or an occurrence of \<open>old\<close> that
  becomes \<open>new\<close>. \<open>seg_old\<close> reads a piece before the change and \<open>seg_new\<close> after
  it; \<open>allowed rules\<close> admits the swaps of \<open>rules\<close> only.
\<close>

datatype segment = Kept char | Swapped string string

fun seg_old :: "segment \<Rightarrow> string" where
  "seg_old (Kept c) = [c]"
| "seg_old (Swapped old new) = old"

fun seg_new :: "segment \<Rightarrow> string" where
  "seg_new (Kept c) = [c]"
| "seg_new (Swapped old new) = new"

fun allowed :: "(string \<times> string) list \<Rightarrow> segment \<Rightarrow> bool" where
  "allowed rules (Kept c) = True"
| "allowed rules (Swapped old new) = ((old, new) \<in> set rules)"


text \<open>
  "All occurrences of \<open>old\<close> in \<open>s\<close> are replaced by \<open>new\<close>", said without a
  scan: a text with no occurrence is left as it is; otherwise the text is cut at its first
  occurrence (no occurrence begins earlier), that occurrence becomes \<open>new\<close>, and all
  occurrences in the rest are replaced.
\<close>

inductive replaces_all :: "string \<Rightarrow> string \<Rightarrow> string \<Rightarrow> string \<Rightarrow> bool" where
  none: "\<not> sublist old s \<Longrightarrow> replaces_all old new s s"
| first: "\<not> sublist old (xs @ butlast old) \<Longrightarrow> replaces_all old new ys ys' \<Longrightarrow>
          replaces_all old new (xs @ old @ ys) (xs @ new @ ys')"

text \<open>
  An I/O event that is a read or a write names the path \<open>p\<close> and the encoding
  \<open>enc\<close>; printing touches no file.
\<close>

fun touches_only :: "path \<Rightarrow> string \<Rightarrow> io_event \<Rightarrow> bool" where
  "touches_only p enc (Read_text q e) = (q = p \<and> e = enc)"
| "touches_only p enc (Write_text q e d) = (q = p \<and> e = enc)"
| "touches_only p enc (Print m) = True"

section \<open>Overlap conditions\<close>

text \<open>
  Two texts clash when one is a prefix of the other, that is, when they agree as far as
  both go. \<open>apart a m\<close>: \<open>a\<close> clashes with no non-empty suffix of \<open>m\<close>, so no
  occurrence of \<open>a\<close> can begin inside a block \<open>m\<close>, whatever follows the block.
\<close>

definition clash :: "string \<Rightarrow> string \<Rightarrow> bool" where
  "clash a b \<longleftrightarrow> prefix a b \<or> prefix b a"

fun apart :: "string \<Rightarrow> string \<Rightarrow> bool" where
  "apart a [] = True"
| "apart a (c # m) = (\<not> clash a (c # m) \<and> apart a m)"

text \<open>
  Conditions on a list of replacements, checked by computation for the five of the script.
  \<open>passes rules m\<close>: a block \<open>m\<close> goes through the list as a whole and comes out as
  \<open>image_of rules m\<close>. \<open>heads_kept rules\<close>: no replacement's output completes a later
  pattern that began before it. \<open>stays_out rules u\<close>: no step creates an occurrence of
  \<open>u\<close>. \<open>removed_by rules u\<close>: some step replaces \<open>u\<close> and no step from there on
  brings it back.
\<close>

fun image_of :: "(string \<times> string) list \<Rightarrow> string \<Rightarrow> string" where
  "image_of [] m = m"
| "image_of ((t, r) # rules) m = (if m = t then image_of rules r else image_of rules m)"

fun passes :: "(string \<times> string) list \<Rightarrow> string \<Rightarrow> bool" where
  "passes [] m = True"
| "passes ((t, r) # rules) m =
     (t \<noteq> [] \<and> apart m (tl t) \<and>
      (if m = t then passes rules r else apart t m \<and> passes rules m))"

fun heads_kept :: "(string \<times> string) list \<Rightarrow> bool" where
  "heads_kept [] = True"
| "heads_kept ((t, r) # rules) =
     (t \<noteq> [] \<and> list_all (\<lambda>(t', r'). apart r (tl t')) rules \<and> heads_kept rules)"

fun stays_out :: "(string \<times> string) list \<Rightarrow> string \<Rightarrow> bool" where
  "stays_out [] u = True"
| "stays_out ((t, r) # rules) u =
     (t \<noteq> [] \<and> apart u r \<and> apart r (tl u) \<and> stays_out rules u)"

fun removed_by :: "(string \<times> string) list \<Rightarrow> string \<Rightarrow> bool" where
  "removed_by [] u = False"
| "removed_by ((t, r) # rules) u =
     ((t = u \<and> stays_out ((t, r) # rules) u) \<or> (t \<noteq> [] \<and> removed_by rules u))"

section \<open>One replacement\<close>

lemma replace_py_empty: "t \<noteq> [] \<Longrightarrow> replace_py t new [] = []"
  by (cases t) simp_all

lemma replace_py_hit: "t \<noteq> [] \<Longrightarrow> replace_py t new (t @ ys) = new @ replace_py t new ys"
  by (cases t) simp_all

lemma replace_py_miss:
  "t \<noteq> [] \<Longrightarrow> \<not> prefix t (c # cs) \<Longrightarrow> replace_py t new (c # cs) = c # replace_py t new cs"
  by (cases t) auto

lemma replace_py_absent: "\<not> sublist t s \<Longrightarrow> replace_py t new s = s"
proof (induction s)
  case Nil
  then show ?case by (cases t) simp_all
next
  case (Cons c cs)
  then have "t \<noteq> []" by auto
  with Cons show ?case by (simp add: sublist_Cons_right replace_py_miss)
qed

lemma prefix_append_clash: "prefix t (m @ ys) \<Longrightarrow> clash t m"
  by (auto simp: clash_def prefix_append)

lemma clash_sym: "clash a b \<longleftrightarrow> clash b a"
  by (auto simp: clash_def)

lemma apart_drop: "apart a m \<Longrightarrow> k < length m \<Longrightarrow> \<not> clash a (drop k m)"
proof (induction m arbitrary: k)
  case Nil
  then show ?case by simp
next
  case (Cons c m)
  then show ?case by (cases k) auto
qed

lemma replace_py_block:
  "t \<noteq> [] \<Longrightarrow> apart t m \<Longrightarrow> replace_py t new (m @ ys) = m @ replace_py t new ys"
proof (induction m)
  case Nil
  then show ?case by simp
next
  case (Cons c m)
  from Cons.prems have "\<not> clash t (c # m)" and "apart t m" by simp_all
  then have "\<not> prefix t (c # (m @ ys))"
    using prefix_append_clash [of t "c # m" ys] by auto
  with Cons.prems(1) have "replace_py t new (c # (m @ ys)) = c # replace_py t new (m @ ys)"
    by (rule replace_py_miss)
  with Cons.IH [OF Cons.prems(1) \<open>apart t m\<close>] show ?case by simp
qed

text \<open>
  An occurrence of \<open>t\<close> that begins in a non-empty \<open>xs\<close> and runs into the block
  \<open>m\<close> behind it would make \<open>m\<close> clash with a proper suffix of \<open>t\<close>.
\<close>

lemma no_straddle:
  assumes "apart m (tl t)" and "prefix t (xs @ m @ ys)" and "xs \<noteq> []"
  shows "prefix t xs"
proof (rule ccontr)
  assume n: "\<not> prefix t xs"
  from assms(2) n obtain us where t: "t = xs @ us" and us: "prefix us (m @ ys)"
    by (auto simp: prefix_append)
  from n t have "us \<noteq> []" by auto
  show False
  proof (cases xs)
    case Nil
    with assms(3) show ?thesis by simp
  next
    case (Cons x xs')
    with t have tl: "tl t = xs' @ us" by simp
    have "length xs' < length (tl t)" using tl \<open>us \<noteq> []\<close> by simp
    from apart_drop [OF assms(1) this] tl have "\<not> clash m us" by simp
    moreover from us have "clash us m" by (rule prefix_append_clash)
    ultimately show ?thesis by (simp add: clash_sym)
  qed
qed

lemma replace_py_around:
  assumes t: "t \<noteq> []" and str: "apart m (tl t)"
    and front: "\<And>zs. replace_py t new (m @ zs) = m' @ replace_py t new zs"
  shows "replace_py t new (xs @ m @ ys) = replace_py t new xs @ m' @ replace_py t new ys"
proof (induction xs rule: length_induct)
  case (1 xs)
  show ?case
  proof (cases xs)
    case Nil
    with t front show ?thesis by (simp add: replace_py_empty)
  next
    case (Cons x xs')
    show ?thesis
    proof (cases "prefix t (xs @ m @ ys)")
      case True
      with str Cons have "prefix t xs" by (intro no_straddle [of m t xs ys]) simp_all
      then obtain rest where xs: "xs = t @ rest" by (auto simp: prefix_def)
      with t have "length rest < length xs" by simp
      with 1 have "replace_py t new (rest @ m @ ys) = replace_py t new rest @ m' @ replace_py t new ys"
        by blast
      then show ?thesis using t by (simp add: xs replace_py_hit)
    next
      case False
      then have nx: "\<not> prefix t (x # xs')"
        using Cons prefix_prefix [of t xs "m @ ys"] by auto
      from False Cons have "\<not> prefix t (x # (xs' @ m @ ys))" by simp
      with t have a: "replace_py t new (x # (xs' @ m @ ys)) = x # replace_py t new (xs' @ m @ ys)"
        by (rule replace_py_miss)
      from t nx have b: "replace_py t new (x # xs') = x # replace_py t new xs'"
        by (rule replace_py_miss)
      from 1 Cons have "replace_py t new (xs' @ m @ ys) = replace_py t new xs' @ m' @ replace_py t new ys"
        by simp
      with a b show ?thesis by (simp add: Cons)
    qed
  qed
qed

lemma replace_py_keeps_prefix:
  "t \<noteq> [] \<Longrightarrow> apart new u \<Longrightarrow> prefix u (replace_py t new s) \<Longrightarrow> prefix u s"
proof (induction s arbitrary: u rule: length_induct)
  case (1 s)
  show ?case
  proof (cases u)
    case Nil
    then show ?thesis by simp
  next
    case u: (Cons x u')
    with 1 have nc: "\<not> clash new (x # u')" and ap: "apart new u'" by simp_all
    show ?thesis
    proof (cases s)
      case Nil
      with 1 show ?thesis by (simp add: replace_py_empty)
    next
      case s: (Cons c cs)
      show ?thesis
      proof (cases "prefix t s")
        case True
        then obtain rest where "s = t @ rest" by (auto simp: prefix_def)
        with 1 have "prefix u (new @ replace_py t new rest)" by (simp add: replace_py_hit)
        then have "clash u new" by (rule prefix_append_clash)
        with nc u show ?thesis by (simp add: clash_sym)
      next
        case False
        with 1 s have "replace_py t new s = c # replace_py t new cs"
          by (simp add: replace_py_miss)
        with 1 u have xc: "x = c" and p: "prefix u' (replace_py t new cs)" by simp_all
        from 1 s ap p have "prefix u' cs" by simp
        with xc u s show ?thesis by simp
      qed
    qed
  qed
qed

lemma replace_py_no_new_head:
  assumes "t \<noteq> []" and "apart new (tl u)" and "\<not> prefix u (c # s)"
  shows "\<not> prefix u (c # replace_py t new s)"
proof (cases u)
  case Nil
  with assms show ?thesis by simp
next
  case (Cons x u')
  with assms show ?thesis by (auto dest: replace_py_keeps_prefix)
qed

lemma sublist_past_block:
  "u \<noteq> [] \<Longrightarrow> apart u m \<Longrightarrow> sublist u (m @ zs) \<longleftrightarrow> sublist u zs"
proof (induction m)
  case Nil
  then show ?case by simp
next
  case (Cons c m)
  then have "\<not> prefix u (c # m @ zs)"
    using prefix_append_clash [of u "c # m" zs] by auto
  with Cons show ?case by (simp add: sublist_Cons_right)
qed

lemma replace_py_no_new_occurrence:
  assumes t: "t \<noteq> []" and u: "u \<noteq> []" and a: "apart u new" and b: "apart new (tl u)"
  shows "sublist u (replace_py t new s) \<Longrightarrow> sublist u s"
proof (induction s rule: length_induct)
  case (1 s)
  show ?case
  proof (cases s)
    case Nil
    with 1 t show ?thesis by (simp add: replace_py_empty)
  next
    case s: (Cons c cs)
    show ?thesis
    proof (cases "prefix t s")
      case True
      then obtain rest where r: "s = t @ rest" by (auto simp: prefix_def)
      with 1 t have "sublist u (new @ replace_py t new rest)" by (simp add: replace_py_hit)
      with u a have "sublist u (replace_py t new rest)" by (simp add: sublist_past_block)
      moreover from r t have "length rest < length s" by simp
      ultimately have "sublist u rest" using 1 by blast
      then show ?thesis unfolding r by (metis sublist_def append.assoc)
    next
      case False
      with t s have eq: "replace_py t new s = c # replace_py t new cs"
        by (simp add: replace_py_miss)
      with 1 have "prefix u (c # replace_py t new cs) \<or> sublist u (replace_py t new cs)"
        by (simp add: sublist_Cons_right)
      then show ?thesis
      proof
        assume "prefix u (c # replace_py t new cs)"
        with replace_py_no_new_head [OF t b, of c cs] have "prefix u (c # cs)" by blast
        then show ?thesis by (simp add: s sublist_Cons_right)
      next
        assume "sublist u (replace_py t new cs)"
        with 1 s have "sublist u cs" by simp
        then show ?thesis by (simp add: s sublist_Cons_right)
      qed
    qed
  qed
qed

lemma replace_py_removes_target:
  assumes t: "t \<noteq> []" and a: "apart t new" and b: "apart new (tl t)"
  shows "\<not> sublist t (replace_py t new s)"
proof (induction s rule: length_induct)
  case (1 s)
  show ?case
  proof (cases s)
    case Nil
    with t show ?thesis by (simp add: replace_py_empty)
  next
    case s: (Cons c cs)
    show ?thesis
    proof (cases "prefix t s")
      case True
      then obtain rest where r: "s = t @ rest" by (auto simp: prefix_def)
      with t have "length rest < length s" by simp
      with 1 have "\<not> sublist t (replace_py t new rest)" by blast
      with t a show ?thesis by (simp add: r replace_py_hit sublist_past_block)
    next
      case False
      with t s have eq: "replace_py t new s = c # replace_py t new cs"
        by (simp add: replace_py_miss)
      from False s replace_py_no_new_head [OF t b, of c cs]
      have "\<not> prefix t (c # replace_py t new cs)" by simp
      moreover from 1 s have "\<not> sublist t (replace_py t new cs)" by simp
      ultimately show ?thesis by (simp add: eq sublist_Cons_right)
    qed
  qed
qed

subsection \<open>The scan against the declarative reading\<close>

lemma butlast_prefix_target: "old \<noteq> [] \<Longrightarrow> prefix (xs @ butlast old) (xs @ old @ ys)"
proof -
  assume "old \<noteq> []"
  then have "old = butlast old @ [last old]" by simp
  then have "xs @ old @ ys = (xs @ butlast old) @ (last old # ys)"
    by (metis append.assoc append_Cons append_Nil)
  then show ?thesis by (metis prefixI)
qed

lemma replace_py_first:
  "old \<noteq> [] \<Longrightarrow> \<not> sublist old (xs @ butlast old) \<Longrightarrow>
   replace_py old new (xs @ old @ ys) = xs @ new @ replace_py old new ys"
proof (induction xs)
  case Nil
  then show ?case by (simp add: replace_py_hit)
next
  case (Cons x xs)
  from Cons.prems have np: "\<not> prefix old ((x # xs) @ butlast old)"
    and ns: "\<not> sublist old (xs @ butlast old)" by (simp_all add: sublist_Cons_right)
  have "\<not> prefix old (x # (xs @ old @ ys))"
  proof
    assume a: "prefix old (x # (xs @ old @ ys))"
    from Cons.prems(1) have "old = butlast old @ [last old]" by simp
    then have "(x # xs) @ old @ ys = ((x # xs) @ butlast old) @ (last old # ys)"
      by (metis append.assoc append_Cons append_Nil)
    then have b: "prefix ((x # xs) @ butlast old) (x # (xs @ old @ ys))"
      by (metis append_Cons prefixI)
    have "length old \<le> length ((x # xs) @ butlast old)" by simp
    with a b have "prefix old ((x # xs) @ butlast old)" by (rule prefix_length_prefix)
    with np show False by simp
  qed
  with Cons.prems(1) have "replace_py old new (x # (xs @ old @ ys)) = x # replace_py old new (xs @ old @ ys)"
    by (rule replace_py_miss)
  with Cons.IH [OF Cons.prems(1) ns] show ?case by simp
qed

lemma replaces_all_replace_py: "old \<noteq> [] \<Longrightarrow> replaces_all old new s (replace_py old new s)"
proof (induction s rule: length_induct)
  case (1 s)
  note ne = \<open>old \<noteq> []\<close>
  show ?case
  proof (cases s)
    case Nil
    with ne show ?thesis by (simp add: replace_py_empty replaces_all.none)
  next
    case (Cons c cs)
    show ?thesis
    proof (cases "prefix old s")
      case True
      then obtain rest where s: "s = old @ rest" by (auto simp: prefix_def)
      with ne have "length rest < length s" by simp
      with 1 have ih: "replaces_all old new rest (replace_py old new rest)" by blast
      have "\<not> sublist old ([] @ butlast old)"
      proof
        assume "sublist old ([] @ butlast old)"
        then obtain ps ss where "butlast old = ps @ old @ ss"
          by (auto simp: sublist_def)
        then have "length (butlast old) = length (ps @ old @ ss)" by simp
        then have "length old \<le> length old - 1" by simp
        with ne show False by (cases old) simp_all
      qed
      from replaces_all.first [OF this ih] ne show ?thesis by (simp add: s replace_py_hit)
    next
      case False
      with ne Cons have eq: "replace_py old new s = c # replace_py old new cs"
        by (simp add: replace_py_miss)
      from 1 Cons have "replaces_all old new cs (replace_py old new cs)" by simp
      then show ?thesis
      proof (cases rule: replaces_all.cases)
        case none
        with False Cons have "\<not> sublist old s" by (simp add: sublist_Cons_right)
        moreover from none eq Cons have "replace_py old new s = s" by simp
        ultimately show ?thesis by (simp add: replaces_all.none)
      next
        case (first xs ys ys')
        have "\<not> prefix old ((c # xs) @ butlast old)"
        proof
          assume "prefix old ((c # xs) @ butlast old)"
          moreover from ne have "prefix ((c # xs) @ butlast old) ((c # xs) @ old @ ys)"
            by (rule butlast_prefix_target)
          ultimately have "prefix old ((c # xs) @ old @ ys)" by (rule prefix_order.trans)
          with False Cons first show False by simp
        qed
        with first have "\<not> sublist old ((c # xs) @ butlast old)"
          by (simp add: sublist_Cons_right)
        from replaces_all.first [OF this first(4)] first eq Cons show ?thesis by simp
      qed
    qed
  qed
qed

lemma replaces_all_unique:
  "replaces_all old new s s' \<Longrightarrow> old \<noteq> [] \<Longrightarrow> s' = replace_py old new s"
  by (induction rule: replaces_all.induct) (simp_all add: replace_py_absent replace_py_first)

section \<open>A sequence of replacements\<close>

lemma replace_each_Nil [simp]: "replace_each [] s = s"
  by (simp add: replace_each_def)

lemma replace_each_Cons [simp]:
  "replace_each ((t, r) # rules) s = replace_each rules (replace_py t r s)"
  by (simp add: replace_each_def)

lemma replace_each_empty: "list_all (\<lambda>(t, r). t \<noteq> []) rules \<Longrightarrow> replace_each rules [] = []"
  by (induction rules) (auto simp: replace_py_empty)

lemma replace_each_around:
  "passes rules m \<Longrightarrow>
   replace_each rules (xs @ m @ ys) = replace_each rules xs @ image_of rules m @ replace_each rules ys"
proof (induction rules arbitrary: m xs ys)
  case Nil
  then show ?case by simp
next
  case (Cons rule rules)
  obtain t r where rule: "rule = (t, r)" by (cases rule)
  from Cons.prems rule have t: "t \<noteq> []" and str: "apart m (tl t)" by simp_all
  show ?case
  proof (cases "m = t")
    case True
    with Cons.prems rule have p: "passes rules r" by simp
    from t have "\<And>zs. replace_py t r (m @ zs) = r @ replace_py t r zs"
      unfolding True by (rule replace_py_hit)
    with t str have "replace_py t r (xs @ m @ ys) = replace_py t r xs @ r @ replace_py t r ys"
      by (rule replace_py_around)
    with Cons.IH [OF p] show ?thesis by (simp add: rule True)
  next
    case False
    with Cons.prems rule have p: "passes rules m" and a: "apart t m" by simp_all
    from t a have "\<And>zs. replace_py t r (m @ zs) = m @ replace_py t r zs"
      by (rule replace_py_block)
    with t str have "replace_py t r (xs @ m @ ys) = replace_py t r xs @ m @ replace_py t r ys"
      by (rule replace_py_around)
    with Cons.IH [OF p] False show ?thesis by (simp add: rule)
  qed
qed

lemma replace_each_head:
  "heads_kept rules \<Longrightarrow> list_all (\<lambda>(t, r). \<not> prefix t (c # s)) rules \<Longrightarrow>
   replace_each rules (c # s) = c # replace_each rules s"
proof (induction rules arbitrary: s)
  case Nil
  then show ?case by simp
next
  case (Cons rule rules)
  obtain t r where rule: "rule = (t, r)" by (cases rule)
  from Cons.prems rule have t: "t \<noteq> []" and np: "\<not> prefix t (c # s)"
    and hk: "heads_kept rules" by simp_all
  from t np have step: "replace_py t r (c # s) = c # replace_py t r s" by (rule replace_py_miss)
  have "list_all (\<lambda>(t', r'). \<not> prefix t' (c # replace_py t r s)) rules"
    unfolding list_all_iff
  proof clarify
    fix t' r' assume m: "(t', r') \<in> set rules" and p: "prefix t' (c # replace_py t r s)"
    from Cons.prems rule m have "apart r (tl t')" and "\<not> prefix t' (c # s)"
      by (auto simp: list_all_iff)
    with t p show False using replace_py_no_new_head [of t r t' c s] by blast
  qed
  with Cons.IH [OF hk] step show ?case by (simp add: rule)
qed

lemma replace_each_stays_out:
  "stays_out rules u \<Longrightarrow> u \<noteq> [] \<Longrightarrow> \<not> sublist u s \<Longrightarrow> \<not> sublist u (replace_each rules s)"
proof (induction rules arbitrary: s)
  case Nil
  then show ?case by simp
next
  case (Cons rule rules)
  obtain t r where rule: "rule = (t, r)" by (cases rule)
  from Cons.prems rule have "\<not> sublist u (replace_py t r s)"
    using replace_py_no_new_occurrence [of t u r s] by auto
  with Cons rule show ?case by simp
qed

lemma replace_each_removes:
  "removed_by rules u \<Longrightarrow> \<not> sublist u (replace_each rules s)"
proof (induction rules arbitrary: s)
  case Nil
  then show ?case by simp
next
  case (Cons rule rules)
  obtain t r where rule: "rule = (t, r)" by (cases rule)
  from Cons.prems rule consider
    (here) "t = u" "stays_out ((t, r) # rules) u" | (later) "removed_by rules u" by auto
  then show ?case
  proof cases
    case here
    then have "u \<noteq> []" and "\<not> sublist u (replace_py u r s)"
      using replace_py_removes_target [of u r s] by auto
    with here show ?thesis using replace_each_stays_out [of rules u "replace_py u r s"]
      by (simp add: rule)
  next
    case later
    with Cons.IH show ?thesis by (simp add: rule)
  qed
qed

lemma replace_each_absent:
  "list_all (\<lambda>(t, r). \<not> sublist t s) rules \<Longrightarrow> replace_each rules s = s"
  by (induction rules) (auto simp: replace_py_absent)

lemma replace_each_segments:
  assumes ne: "list_all (\<lambda>(t, r). t \<noteq> []) rules"
    and ps: "list_all (\<lambda>(t, r). passes rules t \<and> image_of rules t = r) rules"
    and hk: "heads_kept rules"
  shows "\<exists>segs. list_all (allowed rules) segs \<and> s = concat (map seg_old segs) \<and>
           replace_each rules s = concat (map seg_new segs)"
proof (induction s rule: length_induct)
  case (1 s)
  show ?case
  proof (cases s)
    case Nil
    with ne have "replace_each rules s = []" by (simp add: replace_each_empty)
    with Nil have "list_all (allowed rules) [] \<and> s = concat (map seg_old []) \<and>
           replace_each rules s = concat (map seg_new [])" by simp
    then show ?thesis by blast
  next
    case (Cons c cs)
    show ?thesis
    proof (cases "list_all (\<lambda>(t, r). \<not> prefix t (c # cs)) rules")
      case True
      with hk have h: "replace_each rules (c # cs) = c # replace_each rules cs"
        by (rule replace_each_head)
      from 1 Cons obtain segs where "list_all (allowed rules) segs" "cs = concat (map seg_old segs)"
        "replace_each rules cs = concat (map seg_new segs)" by auto
      with h Cons have "list_all (allowed rules) (Kept c # segs) \<and>
           s = concat (map seg_old (Kept c # segs)) \<and>
           replace_each rules s = concat (map seg_new (Kept c # segs))" by simp
      then show ?thesis by blast
    next
      case False
      then obtain t r where m: "(t, r) \<in> set rules" and p: "prefix t (c # cs)"
        by (auto simp: list_all_iff)
      from p Cons obtain rest where s: "s = t @ rest" by (auto simp: prefix_def)
      from m ne ps have t: "t \<noteq> []" and pt: "passes rules t" and im: "image_of rules t = r"
        by (auto simp: list_all_iff)
      from replace_each_around [OF pt, of "[]" rest] ne im
      have h: "replace_each rules (t @ rest) = r @ replace_each rules rest"
        by (simp add: replace_each_empty)
      from s t have "length rest < length s" by simp
      with 1 obtain segs where "list_all (allowed rules) segs" "rest = concat (map seg_old segs)"
        "replace_each rules rest = concat (map seg_new segs)" by blast
      with h s m have "list_all (allowed rules) (Swapped t r # segs) \<and>
           s = concat (map seg_old (Swapped t r # segs)) \<and>
           replace_each rules s = concat (map seg_new (Swapped t r # segs))" by simp
      then show ?thesis by blast
    qed
  qed
qed

section \<open>The five replacements of the script\<close>

lemma patched_content_fold: "patched_content s = replace_each substitutions s"
  by (simp add: patched_content_def substitutions_def Let_def)

lemma patched_content_blocks: "patched_content s = names_fixed (retry_increased s)"
  by (simp add: patched_content_def names_fixed_def retry_increased_def Let_def)

lemma retry_increased_fold: "retry_increased s = replace_each (take 3 substitutions) s"
  by (simp add: retry_increased_def substitutions_def Let_def)

lemma names_fixed_fold: "names_fixed s = replace_each (drop 3 substitutions) s"
  by (simp add: names_fixed_def substitutions_def Let_def)


lemma substitutions_pass:
  "list_all (\<lambda>(t, r). passes substitutions t \<and> image_of substitutions t = r) substitutions"
  by (simp add: substitutions_def clash_def)


lemma substitutions_removed:
  "list_all (\<lambda>(t, r). removed_by substitutions t) substitutions"
  by (simp add: substitutions_def clash_def)

lemma names_fixed_pass:
  "list_all (\<lambda>(t, r). passes (drop 3 substitutions) t \<and> image_of (drop 3 substitutions) t = r)
          (drop 3 substitutions)"
  by (simp add: substitutions_def clash_def)

lemma patched_content_around:
  assumes "(old, new) \<in> set substitutions"
  shows "patched_content (xs @ old @ ys) = patched_content xs @ new @ patched_content ys"
proof -
  from assms substitutions_pass have "passes substitutions old" "image_of substitutions old = new"
    by (auto simp: list_all_iff)
  with replace_each_around [of substitutions old xs ys] show ?thesis
    by (simp add: patched_content_fold)
qed

lemma retry_increased_around:
  assumes "(old, new) \<in> set (take 3 substitutions)"
  shows "retry_increased (xs @ old @ ys) = retry_increased xs @ new @ retry_increased ys"
proof -
  have "list_all (\<lambda>(t, r). passes (take 3 substitutions) t \<and> image_of (take 3 substitutions) t = r)
          (take 3 substitutions)"
    by (simp add: substitutions_def clash_def)
  with assms have "passes (take 3 substitutions) old" "image_of (take 3 substitutions) old = new"
    by (auto simp: list_all_iff)
  with replace_each_around [of "take 3 substitutions" old xs ys] show ?thesis
    by (simp add: retry_increased_fold)
qed

lemma names_fixed_around:
  assumes "(old, new) \<in> set (drop 3 substitutions)"
  shows "names_fixed (xs @ old @ ys) = names_fixed xs @ new @ names_fixed ys"
proof -
  from assms names_fixed_pass
  have "passes (drop 3 substitutions) old" "image_of (drop 3 substitutions) old = new"
    by (auto simp: list_all_iff)
  with replace_each_around [of "drop 3 substitutions" old xs ys] show ?thesis
    by (simp add: names_fixed_fold)
qed


lemma patched_content_removes:
  "(old, new) \<in> set substitutions \<Longrightarrow> \<not> sublist old (patched_content s)"
  using substitutions_removed replace_each_removes [of substitutions old s]
  by (auto simp: list_all_iff patched_content_fold)

lemma patched_content_absent:
  "list_all (\<lambda>(old, new). \<not> sublist old s) substitutions \<Longrightarrow> patched_content s = s"
  by (simp add: patched_content_fold replace_each_absent)

lemma finalize_on_text:
  assumes "files w test_path = Some (Text_file content)"
  shows "finalize_retry_fix w =
     (Inr (), w\<lparr>files := (files w)(test_path \<mapsto> Text_file (patched_content content)),
                io_log := io_log w @ [Read_text test_path ''utf-8'',
                                      Write_text test_path ''utf-8'' (patched_content content),
                                      Print success_message]\<rparr>)"
  using assms
  by (simp add: finalize_retry_fix_def path_exists_def read_text_def write_text_def print_line_def)

section \<open>Newline translation\<close>



lemma write_newlines_append [simp]:
  "write_newlines linesep (xs @ ys) = write_newlines linesep xs @ write_newlines linesep ys"
  by (simp add: write_newlines_def)


lemma write_newlines_LF [simp]: "write_newlines [LF] s = s"
  by (induction s) (auto simp: write_newlines_def)






section \<open>The claims\<close>

subsection \<open>Recognised substrings\<close>




subsection \<open>The absent target\<close>

text \<open>
  C2: if nothing exists at the target path, \<open>finalize_retry_fix\<close> returns normally and the
  world it returns is the world it was given: the same files, and no read, write or print
  added to the log.
\<close>

theorem absent_target_is_skipped:
  "files w test_path = None \<Longrightarrow> finalize_retry_fix w = (Inr (), w)"
  by (simp add: finalize_retry_fix_def path_exists_def)

theorem absent_target_is_skipped_witness:
  "files \<lparr>files = Map.empty, io_log = []\<rparr> test_path = None \<and>
   finalize_retry_fix \<lparr>files = Map.empty, io_log = []\<rparr> = (Inr (), \<lparr>files = Map.empty, io_log = []\<rparr>)"
  using absent_target_is_skipped [of "\<lparr>files = Map.empty, io_log = []\<rparr>"] by simp

subsection \<open>The retry count\<close>

text \<open>
  C3: wherever one of \<open>opts.retry = 7;\<close>, \<open>opts.retry = 6;\<close> and \<open>opts.retry = 5;\<close>
  occurs in the content, it becomes \<open>opts.retry = 10;\<close>, and the text on either side is
  processed on its own. This holds for the retry block (lines 11 to 13) and for the five
  replacements together.
\<close>

theorem retry_assignments_become_ten:
  "retry_increased (xs @ ''opts.retry = 7;'' @ ys)
     = retry_increased xs @ ''opts.retry = 10;'' @ retry_increased ys \<and>
   retry_increased (xs @ ''opts.retry = 6;'' @ ys)
     = retry_increased xs @ ''opts.retry = 10;'' @ retry_increased ys \<and>
   retry_increased (xs @ ''opts.retry = 5;'' @ ys)
     = retry_increased xs @ ''opts.retry = 10;'' @ retry_increased ys \<and>
   patched_content (xs @ ''opts.retry = 7;'' @ ys)
     = patched_content xs @ ''opts.retry = 10;'' @ patched_content ys \<and>
   patched_content (xs @ ''opts.retry = 6;'' @ ys)
     = patched_content xs @ ''opts.retry = 10;'' @ patched_content ys \<and>
   patched_content (xs @ ''opts.retry = 5;'' @ ys)
     = patched_content xs @ ''opts.retry = 10;'' @ patched_content ys"
proof -
  have m: "(''opts.retry = 7;'', ''opts.retry = 10;'') \<in> set (take 3 substitutions)"
    "(''opts.retry = 6;'', ''opts.retry = 10;'') \<in> set (take 3 substitutions)"
    "(''opts.retry = 5;'', ''opts.retry = 10;'') \<in> set (take 3 substitutions)"
    by (simp_all add: substitutions_def)
  then have n: "(''opts.retry = 7;'', ''opts.retry = 10;'') \<in> set substitutions"
    "(''opts.retry = 6;'', ''opts.retry = 10;'') \<in> set substitutions"
    "(''opts.retry = 5;'', ''opts.retry = 10;'') \<in> set substitutions"
    by (auto dest: in_set_takeD)
  show ?thesis
    using m [THEN retry_increased_around] n [THEN patched_content_around] by blast
qed

subsection \<open>The two declarations\<close>

text \<open>
  C4: wherever \<open>let _concurrent =\<close> or \<open>let _max_seen =\<close> occurs in the content, it
  becomes \<open>let concurrent =\<close> or \<open>let max_seen =\<close>, for the renaming block (lines 16 and
  17) and for the five replacements together; and the renaming block changes nothing else:
  its result is its input with occurrences of these two declarations swapped and every
  other character kept.
\<close>

theorem only_two_declarations_are_renamed:
  "names_fixed (xs @ ''let _concurrent ='' @ ys)
     = names_fixed xs @ ''let concurrent ='' @ names_fixed ys \<and>
   names_fixed (xs @ ''let _max_seen ='' @ ys)
     = names_fixed xs @ ''let max_seen ='' @ names_fixed ys \<and>
   patched_content (xs @ ''let _concurrent ='' @ ys)
     = patched_content xs @ ''let concurrent ='' @ patched_content ys \<and>
   patched_content (xs @ ''let _max_seen ='' @ ys)
     = patched_content xs @ ''let max_seen ='' @ patched_content ys \<and>
   (\<exists>segs. list_all (allowed [(''let _concurrent ='', ''let concurrent =''),
                               (''let _max_seen ='', ''let max_seen ='')]) segs \<and>
           s = concat (map seg_old segs) \<and> names_fixed s = concat (map seg_new segs))"
proof -
  have d: "drop 3 substitutions = [(''let _concurrent ='', ''let concurrent =''),
                               (''let _max_seen ='', ''let max_seen ='')]"
    by (simp add: substitutions_def)
  have m: "(''let _concurrent ='', ''let concurrent ='') \<in> set (drop 3 substitutions)"
    "(''let _max_seen ='', ''let max_seen ='') \<in> set (drop 3 substitutions)"
    by (simp_all add: d)
  then have n: "(''let _concurrent ='', ''let concurrent ='') \<in> set substitutions"
    "(''let _max_seen ='', ''let max_seen ='') \<in> set substitutions"
    by (auto dest: in_set_dropD)
  have ne: "list_all (\<lambda>(t, r). t \<noteq> []) (drop 3 substitutions)" by (simp add: d)
  have hk: "heads_kept (drop 3 substitutions)" by (simp add: d clash_def)
  have "\<exists>segs. list_all (allowed (drop 3 substitutions)) segs \<and> s = concat (map seg_old segs) \<and>
          replace_each (drop 3 substitutions) s = concat (map seg_new segs)"
    by (rule replace_each_segments [OF ne names_fixed_pass hk])
  then have "\<exists>segs. list_all (allowed [(''let _concurrent ='', ''let concurrent =''),
                               (''let _max_seen ='', ''let max_seen ='')]) segs \<and>
           s = concat (map seg_old segs) \<and> names_fixed s = concat (map seg_new segs)"
    by (simp add: names_fixed_fold d)
  then show ?thesis
    using m [THEN names_fixed_around] n [THEN patched_content_around] by blast
qed

subsection \<open>The order of the replacements\<close>

text \<open>
  C5: when the target is a text file, the run succeeds and the content of the target
  afterwards is exactly the text reached from the content read by replacing all occurrences
  of \<open>opts.retry = 7;\<close>, then of \<open>opts.retry = 6;\<close>, then of \<open>opts.retry = 5;\<close> (each
  by \<open>opts.retry = 10;\<close>), then of \<open>let _concurrent =\<close> by \<open>let concurrent =\<close>, then of
  \<open>let _max_seen =\<close> by \<open>let max_seen =\<close>, each step on the result of the step before.
\<close>

theorem content_is_five_replacements_in_order:
  assumes "files w test_path = Some (Text_file content)"
  shows "\<exists>w'. finalize_retry_fix w = (Inr (), w') \<and>
           (\<forall>c5. files w' test_path = Some (Text_file c5) \<longleftrightarrow>
              (\<exists>c1 c2 c3 c4.
                 replaces_all ''opts.retry = 7;'' ''opts.retry = 10;'' content c1 \<and>
                 replaces_all ''opts.retry = 6;'' ''opts.retry = 10;'' c1 c2 \<and>
                 replaces_all ''opts.retry = 5;'' ''opts.retry = 10;'' c2 c3 \<and>
                 replaces_all ''let _concurrent ='' ''let concurrent ='' c3 c4 \<and>
                 replaces_all ''let _max_seen ='' ''let max_seen ='' c4 c5))"
proof -
  let ?w' = "w\<lparr>files := (files w)(test_path \<mapsto> Text_file (patched_content content)),
                io_log := io_log w @ [Read_text test_path ''utf-8'',
                                      Write_text test_path ''utf-8'' (patched_content content),
                                      Print success_message]\<rparr>"
  from assms have f: "finalize_retry_fix w = (Inr (), ?w')" by (rule finalize_on_text)
  have "(\<exists>c1 c2 c3 c4.
                 replaces_all ''opts.retry = 7;'' ''opts.retry = 10;'' content c1 \<and>
                 replaces_all ''opts.retry = 6;'' ''opts.retry = 10;'' c1 c2 \<and>
                 replaces_all ''opts.retry = 5;'' ''opts.retry = 10;'' c2 c3 \<and>
                 replaces_all ''let _concurrent ='' ''let concurrent ='' c3 c4 \<and>
                 replaces_all ''let _max_seen ='' ''let max_seen ='' c4 c5)
        \<longleftrightarrow> c5 = patched_content content" (is "?chain c5 \<longleftrightarrow> _") for c5
  proof
    assume "?chain c5"
    then obtain c1 c2 c3 c4 where
      "replaces_all ''opts.retry = 7;'' ''opts.retry = 10;'' content c1"
      "replaces_all ''opts.retry = 6;'' ''opts.retry = 10;'' c1 c2"
      "replaces_all ''opts.retry = 5;'' ''opts.retry = 10;'' c2 c3"
      "replaces_all ''let _concurrent ='' ''let concurrent ='' c3 c4"
      "replaces_all ''let _max_seen ='' ''let max_seen ='' c4 c5" by blast
    then have "c1 = replace_py ''opts.retry = 7;'' ''opts.retry = 10;'' content"
      "c2 = replace_py ''opts.retry = 6;'' ''opts.retry = 10;'' c1"
      "c3 = replace_py ''opts.retry = 5;'' ''opts.retry = 10;'' c2"
      "c4 = replace_py ''let _concurrent ='' ''let concurrent ='' c3"
      "c5 = replace_py ''let _max_seen ='' ''let max_seen ='' c4"
      by (simp_all add: replaces_all_unique)
    then show "c5 = patched_content content" by (simp add: patched_content_def Let_def)
  next
    assume c5: "c5 = patched_content content"
    define c1 where "c1 = replace_py ''opts.retry = 7;'' ''opts.retry = 10;'' content"
    define c2 where "c2 = replace_py ''opts.retry = 6;'' ''opts.retry = 10;'' c1"
    define c3 where "c3 = replace_py ''opts.retry = 5;'' ''opts.retry = 10;'' c2"
    define c4 where "c4 = replace_py ''let _concurrent ='' ''let concurrent ='' c3"
    have "replaces_all ''opts.retry = 7;'' ''opts.retry = 10;'' content c1"
      unfolding c1_def by (rule replaces_all_replace_py) simp
    moreover have "replaces_all ''opts.retry = 6;'' ''opts.retry = 10;'' c1 c2"
      unfolding c2_def by (rule replaces_all_replace_py) simp
    moreover have "replaces_all ''opts.retry = 5;'' ''opts.retry = 10;'' c2 c3"
      unfolding c3_def by (rule replaces_all_replace_py) simp
    moreover have "replaces_all ''let _concurrent ='' ''let concurrent ='' c3 c4"
      unfolding c4_def by (rule replaces_all_replace_py) simp
    moreover have "c5 = replace_py ''let _max_seen ='' ''let max_seen ='' c4"
      by (simp add: c5 patched_content_def Let_def c1_def c2_def c3_def c4_def)
    then have "replaces_all ''let _max_seen ='' ''let max_seen ='' c4 c5"
      using replaces_all_replace_py [of "''let _max_seen =''" "''let max_seen =''" c4] by simp
    ultimately show "?chain c5" by blast
  qed
  then have "\<forall>c5. files ?w' test_path = Some (Text_file c5) \<longleftrightarrow> ?chain c5" by auto
  with f show ?thesis by blast
qed

theorem content_is_five_replacements_in_order_witness:
  "files \<lparr>files = [test_path \<mapsto> Text_file ''opts.retry = 7;''], io_log = []\<rparr> test_path
     = Some (Text_file ''opts.retry = 7;'') \<and>
   (\<exists>w'. finalize_retry_fix \<lparr>files = [test_path \<mapsto> Text_file ''opts.retry = 7;''], io_log = []\<rparr>
            = (Inr (), w') \<and>
           (\<forall>c5. files w' test_path = Some (Text_file c5) \<longleftrightarrow>
              (\<exists>c1 c2 c3 c4.
                 replaces_all ''opts.retry = 7;'' ''opts.retry = 10;'' ''opts.retry = 7;'' c1 \<and>
                 replaces_all ''opts.retry = 6;'' ''opts.retry = 10;'' c1 c2 \<and>
                 replaces_all ''opts.retry = 5;'' ''opts.retry = 10;'' c2 c3 \<and>
                 replaces_all ''let _concurrent ='' ''let concurrent ='' c3 c4 \<and>
                 replaces_all ''let _max_seen ='' ''let max_seen ='' c4 c5)))"
proof -
  have h: "files \<lparr>files = [test_path \<mapsto> Text_file ''opts.retry = 7;''], io_log = []\<rparr> test_path
     = Some (Text_file ''opts.retry = 7;'')" by simp
  from content_is_five_replacements_in_order [OF h] h show ?thesis by blast
qed

subsection \<open>What a run touches\<close>

text \<open>
  C6: whatever the world and however the run ends, every path other than the target holds
  afterwards what it held before, and every read and write added to the log is at the
  target path with the encoding \<open>utf-8\<close>. When the target is a text file, the run adds one
  read of the target, one write of the target and the printed line, and the files differ
  from before at the target only.
\<close>

theorem only_target_path_is_touched:
  assumes "finalize_retry_fix w = (res, w')"
  shows "(\<forall>p. p \<noteq> test_path \<longrightarrow> files w' p = files w p) \<and>
         (\<exists>events. io_log w' = io_log w @ events \<and>
                   list_all (touches_only test_path ''utf-8'') events) \<and>
         (\<forall>content. files w test_path = Some (Text_file content) \<longrightarrow>
            (\<exists>new_content.
               files w' = (files w)(test_path \<mapsto> Text_file new_content) \<and>
               io_log w' = io_log w @ [Read_text test_path ''utf-8'',
                                       Write_text test_path ''utf-8'' new_content,
                                       Print success_message]))"
proof (cases "files w test_path")
  case None
  then have "finalize_retry_fix w = (Inr (), w)"
    by (simp add: finalize_retry_fix_def path_exists_def)
  with assms have "w' = w" by simp
  with None show ?thesis by simp
next
  case (Some n)
  show ?thesis
  proof (cases n)
    case (Text_file content)
    with Some assms finalize_on_text [of w content]
    have "w' = w\<lparr>files := (files w)(test_path \<mapsto> Text_file (patched_content content)),
                io_log := io_log w @ [Read_text test_path ''utf-8'',
                                      Write_text test_path ''utf-8'' (patched_content content),
                                      Print success_message]\<rparr>" by simp
    with Some Text_file show ?thesis by simp
  next
    case Undecodable_file
    with Some assms have "w' = w\<lparr>io_log := io_log w @ [Read_text test_path ''utf-8'']\<rparr>"
      by (simp add: finalize_retry_fix_def path_exists_def read_text_def)
    with Some Undecodable_file show ?thesis by simp
  next
    case Directory
    with Some assms have "w' = w"
      by (simp add: finalize_retry_fix_def path_exists_def read_text_def)
    with Some Directory show ?thesis by simp
  qed
qed

theorem only_target_path_is_touched_witness:
  "finalize_retry_fix
     \<lparr>files = [test_path \<mapsto> Text_file ''opts.retry = 5;'', ''Cargo.toml'' \<mapsto> Text_file ''[package]''],
      io_log = []\<rparr>
   = (Inr (),
      \<lparr>files = [test_path \<mapsto> Text_file ''opts.retry = 10;'', ''Cargo.toml'' \<mapsto> Text_file ''[package]''],
       io_log = [Read_text test_path ''utf-8'', Write_text test_path ''utf-8'' ''opts.retry = 10;'',
                 Print success_message]\<rparr>) \<and>
   files \<lparr>files = [test_path \<mapsto> Text_file ''opts.retry = 10;'', ''Cargo.toml'' \<mapsto> Text_file ''[package]''],
       io_log = [Read_text test_path ''utf-8'', Write_text test_path ''utf-8'' ''opts.retry = 10;'',
                 Print success_message]\<rparr> ''Cargo.toml''
   = files \<lparr>files = [test_path \<mapsto> Text_file ''opts.retry = 5;'', ''Cargo.toml'' \<mapsto> Text_file ''[package]''],
      io_log = []\<rparr> ''Cargo.toml'' \<and>
   files \<lparr>files = [test_path \<mapsto> Text_file ''opts.retry = 10;'', ''Cargo.toml'' \<mapsto> Text_file ''[package]''],
       io_log = [Read_text test_path ''utf-8'', Write_text test_path ''utf-8'' ''opts.retry = 10;'',
                 Print success_message]\<rparr> ''no_such_file'' = None"
proof -
  let ?w = "\<lparr>files = [test_path \<mapsto> Text_file ''opts.retry = 5;'', ''Cargo.toml'' \<mapsto> Text_file ''[package]''],
      io_log = []\<rparr>"
  let ?w' = "\<lparr>files = [test_path \<mapsto> Text_file ''opts.retry = 10;'', ''Cargo.toml'' \<mapsto> Text_file ''[package]''],
       io_log = [Read_text test_path ''utf-8'', Write_text test_path ''utf-8'' ''opts.retry = 10;'',
                 Print success_message]\<rparr>"
  have n: "''Cargo.toml'' \<noteq> test_path" "''no_such_file'' \<noteq> test_path"
    by (simp_all add: test_path_def)
  have p: "patched_content ''opts.retry = 5;'' = ''opts.retry = 10;''"
    by (simp add: patched_content_def)
  have h: "finalize_retry_fix ?w = (Inr (), ?w')"
    using n by (simp add: finalize_retry_fix_def path_exists_def read_text_def write_text_def
        print_line_def p fun_upd_twist)
  from only_target_path_is_touched [OF h] have "\<forall>p. p \<noteq> test_path \<longrightarrow> files ?w' p = files ?w p"
    by blast
  with n have "files ?w' ''Cargo.toml'' = files ?w ''Cargo.toml''"
    and "files ?w' ''no_such_file'' = files ?w ''no_such_file''" by blast+
  with h n show ?thesis by simp
qed

subsection \<open>Patching again\<close>

text \<open>
  C7: applying the five replacements to their own result changes nothing, and none of the
  five patterns occurs in any of the replacement texts.
\<close>

theorem patching_twice_is_patching_once:
  "patched_content (patched_content s) = patched_content s \<and>
   list_all (\<lambda>(old, new). list_all (\<lambda>(old', new'). \<not> sublist old new') substitutions) substitutions"
proof -
  have "list_all (\<lambda>(old, new). \<not> sublist old (patched_content s)) substitutions"
    by (auto simp: list_all_iff dest: patched_content_removes)
  then have "patched_content (patched_content s) = patched_content s"
    by (rule patched_content_absent)
  moreover have "list_all (\<lambda>(old, new). list_all (\<lambda>(old', new'). \<not> sublist old new') substitutions) substitutions"
    by (simp add: substitutions_def sublist_Cons_right)
  ultimately show ?thesis by simp
qed

text \<open>
  C8: none of the five patterns occurs in the result of the five replacements, whatever
  the input.
\<close>

theorem no_target_is_left:
  "\<not> sublist ''opts.retry = 7;'' (patched_content s) \<and>
   \<not> sublist ''opts.retry = 6;'' (patched_content s) \<and>
   \<not> sublist ''opts.retry = 5;'' (patched_content s) \<and>
   \<not> sublist ''let _concurrent ='' (patched_content s) \<and>
   \<not> sublist ''let _max_seen ='' (patched_content s)"
proof -
  have "(''opts.retry = 7;'', ''opts.retry = 10;'') \<in> set substitutions"
    "(''opts.retry = 6;'', ''opts.retry = 10;'') \<in> set substitutions"
    "(''opts.retry = 5;'', ''opts.retry = 10;'') \<in> set substitutions"
    "(''let _concurrent ='', ''let concurrent ='') \<in> set substitutions"
    "(''let _max_seen ='', ''let max_seen ='') \<in> set substitutions"
    by (simp_all add: substitutions_def)
  from this [THEN patched_content_removes] show ?thesis by blast
qed

subsection \<open>Content without a pattern\<close>

text \<open>
  C9: when the target is a text file in which none of the five patterns occurs, the five
  replacements leave the content as it is, and the run still writes: it succeeds, logs the
  read, the write of the unchanged content and the printed line, and the target holds the
  content it held.
\<close>

theorem unmatched_content_is_rewritten_unchanged:
  assumes "files w test_path = Some (Text_file content)"
    and "\<not> sublist ''opts.retry = 7;'' content"
    and "\<not> sublist ''opts.retry = 6;'' content"
    and "\<not> sublist ''opts.retry = 5;'' content"
    and "\<not> sublist ''let _concurrent ='' content"
    and "\<not> sublist ''let _max_seen ='' content"
  shows "patched_content content = content \<and>
         finalize_retry_fix w =
           (Inr (), w\<lparr>files := (files w)(test_path \<mapsto> Text_file content),
                      io_log := io_log w @ [Read_text test_path ''utf-8'',
                                            Write_text test_path ''utf-8'' content,
                                            Print success_message]\<rparr>)"
proof -
  from assms(2-) have "list_all (\<lambda>(old, new). \<not> sublist old content) substitutions"
    by (simp add: substitutions_def)
  then have "patched_content content = content" by (rule patched_content_absent)
  with finalize_on_text [OF assms(1)] show ?thesis by simp
qed

theorem unmatched_content_is_rewritten_unchanged_witness:
  "files \<lparr>files = [test_path \<mapsto> Text_file ''opts.retry = 3;''], io_log = []\<rparr> test_path
     = Some (Text_file ''opts.retry = 3;'') \<and>
   \<not> sublist ''opts.retry = 7;'' ''opts.retry = 3;'' \<and>
   \<not> sublist ''opts.retry = 6;'' ''opts.retry = 3;'' \<and>
   \<not> sublist ''opts.retry = 5;'' ''opts.retry = 3;'' \<and>
   \<not> sublist ''let _concurrent ='' ''opts.retry = 3;'' \<and>
   \<not> sublist ''let _max_seen ='' ''opts.retry = 3;'' \<and>
   patched_content ''opts.retry = 3;'' = ''opts.retry = 3;'' \<and>
   finalize_retry_fix \<lparr>files = [test_path \<mapsto> Text_file ''opts.retry = 3;''], io_log = []\<rparr> =
     (Inr (), \<lparr>files = [test_path \<mapsto> Text_file ''opts.retry = 3;''],
               io_log = [Read_text test_path ''utf-8'',
                         Write_text test_path ''utf-8'' ''opts.retry = 3;'',
                         Print success_message]\<rparr>)"
proof -
  let ?w = "\<lparr>files = [test_path \<mapsto> Text_file ''opts.retry = 3;''], io_log = []\<rparr>"
  have h: "files ?w test_path = Some (Text_file ''opts.retry = 3;'')" by simp
  have n: "\<not> sublist ''opts.retry = 7;'' ''opts.retry = 3;''"
    "\<not> sublist ''opts.retry = 6;'' ''opts.retry = 3;''"
    "\<not> sublist ''opts.retry = 5;'' ''opts.retry = 3;''"
    "\<not> sublist ''let _concurrent ='' ''opts.retry = 3;''"
    "\<not> sublist ''let _max_seen ='' ''opts.retry = 3;''"
    by (simp_all add: sublist_Cons_right)
  from unmatched_content_is_rewritten_unchanged [OF h n] h n show ?thesis by simp
qed

end
